theory Spec2Isabelle
  imports Main "HOL-Library.Sublist" "HOL-Library.Multiset"
begin

section \<open>Python values, exceptions and console output\<close>

text \<open>
  A Python \<open>str\<close> is modelled as a \<open>string\<close> in which every \<open>char\<close> stands for one code
  point below 256; texts with higher code points are outside the model.

  An exception is a value. \<open>JSONDecodeError msg\<close> is an instance of
  \<open>json.JSONDecodeError\<close> (or of a subclass, as the one \<open>requests\<close> raises from
  \<open>response.json()\<close>) with \<open>str(e) = msg\<close>. \<open>Exception msg\<close> is any other instance of
  \<open>Exception\<close>. \<open>KeyboardInterrupt\<close> and \<open>SystemExit code\<close> derive from
  \<open>BaseException\<close> only, so a clause \<open>except Exception\<close> does not catch them.
  A call that may raise returns \<open>exn + 'a\<close>, with \<open>Inl\<close> for the exception.
\<close>

datatype exn =
    JSONDecodeError string
  | Exception string
  | KeyboardInterrupt
  | SystemExit nat

text \<open>
  The values \<open>json.loads\<close> returns. A \<open>float\<close> is \<open>Finite m e\<close> for \<open>m * 2 ^ e\<close>, or one
  of the three special values; a \<open>dict\<close> is the list of its items in insertion order.
\<close>

datatype pyfloat = Finite int int | PosInfinity | NegInfinity | NaN

datatype pyval =
    PNone
  | PBool bool
  | PInt int
  | PFloat pyfloat
  | PStr string
  | PList "pyval list"
  | PDict "(string \<times> pyval) list"

text \<open>
  The console: one entry for each call of \<open>print\<close>, oldest first. \<open>print\<close> is taken not
  to fail.
\<close>

type_synonym console = "string list"

definition IndexError :: exn where
  "IndexError = Exception ''list index out of range''"

definition UnboundLocalError :: exn where
  "UnboundLocalError =
     Exception (''cannot access local variable '' @ [CHR 0x27] @ ''content'' @ [CHR 0x27] @
       '' where it is not associated with a value'')"

definition ValueError :: exn where
  "ValueError = Exception ''empty separator''"

section \<open>The string operations \<open>query\<close> uses\<close>

text \<open>\<open>s.find(sep)\<close>: the index of the first occurrence of \<open>sep\<close> in \<open>s\<close>.\<close>

fun str_find :: "string \<Rightarrow> string \<Rightarrow> nat option" where
  "str_find sep [] = (if sep = [] then Some 0 else None)"
| "str_find sep (c # cs) =
     (if prefix sep (c # cs) then Some 0 else map_option Suc (str_find sep cs))"

text \<open>\<open>sep in s\<close>.\<close>

definition str_contains :: "string \<Rightarrow> string \<Rightarrow> bool" where
  "str_contains sep s = (str_find sep s \<noteq> None)"

text \<open>
  \<open>s.split(sep)\<close>: the pieces of \<open>s\<close> between the occurrences of \<open>sep\<close>, found from the
  left, one after the end of the other. An empty separator raises \<open>ValueError\<close>.
\<close>

function split_at :: "string \<Rightarrow> string \<Rightarrow> string list" where
  "split_at sep s =
     (case str_find sep s of
        None \<Rightarrow> [s]
      | Some i \<Rightarrow> if sep = [] then [s] else take i s # split_at sep (drop (i + length sep) s))"
  by pat_completeness auto
termination
proof (relation "measure (\<lambda>(sep, s). length s)")
  show "wf (measure (\<lambda>(sep, s). length s))" by simp
next
  fix sep s :: string and i :: nat
  assume found: "str_find sep s = Some i" and sep: "sep \<noteq> []"
  have "str_find sep s = Some i \<Longrightarrow> i + length sep \<le> length s"
  proof (induction s arbitrary: i)
    case Nil
    then show ?case by (simp split: if_splits)
  next
    case (Cons c cs)
    show ?case
    proof (cases "prefix sep (c # cs)")
      case True
      with Cons.prems have "i = 0" by simp
      with prefix_length_le [OF True] show ?thesis by simp
    next
      case False
      with Cons.prems obtain j where j: "str_find sep cs = Some j" "i = Suc j"
        by auto
      from Cons.IH [OF j(1)] j(2) show ?thesis by simp
    qed
  qed
  with found sep have "i + length sep \<le> length s" and "Suc 0 \<le> length sep"
    by (simp_all add: Suc_le_eq)
  then have "length s - (i + length sep) < length s"
    by arith
  then show "((sep, drop (i + length sep) s), (sep, s)) \<in> measure (\<lambda>(sep, s). length s)"
    by simp
qed

definition str_split :: "string \<Rightarrow> string \<Rightarrow> exn + string list" where
  "str_split s sep = (if sep = [] then Inl ValueError else Inr (split_at sep s))"

text \<open>\<open>xs[i]\<close> for \<open>i \<ge> 0\<close>: \<open>IndexError\<close> out of range.\<close>

definition getitem :: "'a list \<Rightarrow> nat \<Rightarrow> exn + 'a" where
  "getitem xs i = (if i < length xs then Inr (xs ! i) else Inl IndexError)"

text \<open>
  \<open>s.strip()\<close> removes the leading and trailing characters for which \<open>str.isspace\<close>
  holds; below code point 256 these are 9 to 13, 28 to 32, 133 and 160.
\<close>

definition isspace :: "char \<Rightarrow> bool" where
  "isspace c = ((of_char c :: nat) \<in> set [9, 10, 11, 12, 13, 28, 29, 30, 31, 32, 133, 160])"

definition str_strip :: "string \<Rightarrow> string" where
  "str_strip s = rev (dropWhile isspace (rev (dropWhile isspace s)))"

text \<open>Sequencing of two steps of which the first may raise.\<close>

definition and_then :: "exn + 'a \<Rightarrow> ('a \<Rightarrow> exn + 'b) \<Rightarrow> exn + 'b" where
  "and_then r f = (case r of Inl e \<Rightarrow> Inl e | Inr x \<Rightarrow> f x)"

section \<open>\<open>DeepSeekAgent.query\<close>\<close>

definition fence_json :: string where
  \<open>fence_json = ''```json''\<close>

definition fence :: string where
  \<open>fence = ''```''\<close>

text \<open>\<open>content.split(marker)[1].split('```')[0].strip()\<close>, lines 91 and 93.\<close>

definition fenced :: "string \<Rightarrow> string \<Rightarrow> exn + string" where
  "fenced marker content =
     and_then (str_split content marker) (\<lambda>parts.
     and_then (getitem parts 1) (\<lambda>inner.
     and_then (str_split inner fence) (\<lambda>pieces.
     and_then (getitem pieces 0) (\<lambda>block. Inr (str_strip block)))))"

text \<open>Lines 90 to 93: the new value of \<open>content\<close>, or the exception the lines raise.\<close>

definition extract_json :: "string \<Rightarrow> exn + string" where
  "extract_json content =
     (if str_contains fence_json content then fenced fence_json content
      else if str_contains fence content then fenced fence content
      else Inr content)"

text \<open>
  The agent. \<open>use_openai\<close> is the attribute of that name. \<open>openai_content prompt\<close> is lines
  82 and 83 (\<open>query_openai\<close> and the lookup of \<open>choices[0].message.content\<close> in its
  reply), \<open>ollama_content prompt\<close> lines 85 and 86: the text of the reply, or the exception
  raised on the way. The network is not part of the repository, so both are parameters.
  \<open>json_loads\<close> is \<open>json.loads\<close> on a \<open>str\<close>, a parameter as well.
\<close>

record agent =
  use_openai :: bool
  openai_content :: "string \<Rightarrow> exn + string"
  ollama_content :: "string \<Rightarrow> exn + string"

text \<open>Lines 81 to 86: the text of the reply of the configured backend.\<close>

definition backend_content :: "agent \<Rightarrow> string \<Rightarrow> exn + string" where
  "backend_content self prompt =
     (if use_openai self then openai_content self prompt else ollama_content self prompt)"

text \<open>
  The two \<open>except\<close> clauses of \<open>query\<close>, lines 99 to 106. \<open>content\<close> is the value of the
  local variable of that name when the exception was raised, \<open>None\<close> when it was not yet
  assigned: reading it then raises \<open>UnboundLocalError\<close> out of the handler, after the
  first \<open>print\<close>. An exception that neither clause matches goes on to the caller.
\<close>

fun except_clauses :: "exn \<Rightarrow> string option \<Rightarrow> console \<Rightarrow> (exn + pyval) \<times> console" where
  "except_clauses (JSONDecodeError msg) None out =
     (Inl UnboundLocalError, out @ ['' JSON parsing error: '' @ msg])"
| "except_clauses (JSONDecodeError msg) (Some content) out =
     (Inr (PDict [(''error'', PStr ''json_parse_error''), (''raw_response'', PStr content)]),
      out @ ['' JSON parsing error: '' @ msg, ''Raw response: '' @ take 200 content @ ''...''])"
| "except_clauses (Exception msg) content out =
     (Inr (PDict [(''error'', PStr msg)]), out @ ['' Error querying model: '' @ msg])"
| "except_clauses e content out = (Inl e, out)"

definition query ::
  "(string \<Rightarrow> exn + pyval) \<Rightarrow> agent \<Rightarrow> string \<Rightarrow> bool \<Rightarrow> console \<Rightarrow> (exn + pyval) \<times> console"
where
  "query json_loads self prompt parse_json out =
     (case backend_content self prompt of
        Inl e \<Rightarrow> except_clauses e None out
      | Inr content \<Rightarrow>
          if parse_json then
            (case extract_json content of
               Inl e \<Rightarrow> except_clauses e (Some content) out
             | Inr content' \<Rightarrow>
                 (case json_loads content' of
                    Inl e \<Rightarrow> except_clauses e (Some content') out
                  | Inr parsed \<Rightarrow> (Inr parsed, out)))
          else (Inr (PDict [(''response'', PStr content)]), out))"

section \<open>\<open>DeepSeekAgent.generate_summary\<close>\<close>

fun type_name :: "pyval \<Rightarrow> string" where
  "type_name PNone = ''NoneType''"
| "type_name (PBool b) = ''bool''"
| "type_name (PInt i) = ''int''"
| "type_name (PFloat x) = ''float''"
| "type_name (PStr s) = ''str''"
| "type_name (PList xs) = ''list''"
| "type_name (PDict d) = ''dict''"

text \<open>\<open>result.get(key, fallback)\<close>: a value that is no dict has no method \<open>get\<close>.\<close>

fun dict_get :: "pyval \<Rightarrow> string \<Rightarrow> pyval \<Rightarrow> exn + pyval" where
  "dict_get (PDict d) key fallback =
     Inr (case map_of d key of Some v \<Rightarrow> v | None \<Rightarrow> fallback)"
| "dict_get v key fallback =
     Inl (Exception ([CHR 0x27] @ type_name v @ [CHR 0x27] @ '' object has no attribute '' @
       [CHR 0x27] @ ''get'' @ [CHR 0x27]))"

text \<open>
  \<open>format\<close> is \<open>prompt_template.format(bug_count=bug_count, opt_count=opt_count)\<close>, a
  parameter: the prompt, or the exception of a template that the two fields do not fit.
  The call is outside every \<open>try\<close>.
\<close>

definition generate_summary ::
  "(string \<Rightarrow> exn + pyval) \<Rightarrow> (string \<Rightarrow> int \<Rightarrow> int \<Rightarrow> exn + string) \<Rightarrow> agent \<Rightarrow>
   int \<Rightarrow> int \<Rightarrow> string \<Rightarrow> console \<Rightarrow> (exn + pyval) \<times> console"
where
  "generate_summary json_loads format self bug_count opt_count prompt_template out =
     (case format prompt_template bug_count opt_count of
        Inl e \<Rightarrow> (Inl e, out)
      | Inr prompt \<Rightarrow>
          (case query json_loads self prompt False out of
             (Inl e, out') \<Rightarrow> (Inl e, out')
           | (Inr result, out') \<Rightarrow>
               (dict_get result ''response'' (PStr ''No summary generated''), out')))"

section \<open>\<open>scan_directory\<close>\<close>

text \<open>
  A directory as \<open>os.walk\<close> reads it: the names of its entries that are no directories,
  and its subdirectories by name, both in the order of enumeration. The tree is one of
  directories that \<open>os.walk\<close> enters: it does not follow a symbolic link to a directory
  and skips a directory it cannot read, which are outside the model.
\<close>

datatype dirtree = Dir (files: "string list") (subdirs: "(string \<times> dirtree) list")

text \<open>\<open>os.path.join(a, b)\<close> on POSIX.\<close>

definition path_join :: "string \<Rightarrow> string \<Rightarrow> string" where
  "path_join a b =
     (if prefix ''/'' b then b
      else if a = [] \<or> suffix ''/'' a then a @ b
      else a @ ''/'' @ b)"

text \<open>\<open>os.walk(root)\<close>, from the top down: one triple \<open>(root, dirs, files)\<close> for each directory.\<close>

fun walk :: "string \<Rightarrow> dirtree \<Rightarrow> (string \<times> string list \<times> string list) list" where
  "walk root (Dir fs ds) =
     (root, map fst ds, fs) #
     concat (map (\<lambda>entry. walk (path_join root (fst entry)) (snd entry)) ds)"

definition supported_extensions :: "string list" where
  "supported_extensions =
     [''.py'', ''.js'', ''.ts'', ''.java'', ''.cpp'', ''.c'', ''.go'', ''.rb'', ''.php'']"

text \<open>\<open>file.endswith(ext)\<close>.\<close>

definition endswith :: "string \<Rightarrow> string \<Rightarrow> bool" where
  "endswith file ext = suffix ext file"

text \<open>Line 40: \<open>any(file.endswith(ext) for ext in supported_extensions)\<close>.\<close>

definition is_code_file :: "string \<Rightarrow> bool" where
  "is_code_file file = list_ex (\<lambda>ext. endswith file ext) supported_extensions"

text \<open>\<open>tree\<close> is the directory that the file system holds at the path \<open>directory\<close>.\<close>

definition scan_directory :: "dirtree \<Rightarrow> string \<Rightarrow> string list" where
  "scan_directory tree directory =
     concat (map (\<lambda>(root, dirs, files). map (path_join root) (filter is_code_file files))
       (walk directory tree))"

section \<open>\<open>run_project_review\<close>\<close>

text \<open>
  What the script finds outside itself: the file system (\<open>os.path.exists\<close>, \<open>isfile\<close>,
  \<open>isdir\<close> and the tree at a directory), the review pipeline \<open>run_review\<close> of
  \<open>src.workflow\<close> (the report for a file, or the exception it raises), the report
  functions of \<open>src.report_generator\<close> (\<open>print_report_summary\<close> gives the lines it
  prints), the scheduler of the worker threads, and whether the user interrupts the main
  thread while it waits in \<open>run_project_review\<close>. None of them is in the repository, so
  all are parameters.
\<close>

record 'r world =
  path_exists :: "string \<Rightarrow> bool"
  isfile :: "string \<Rightarrow> bool"
  isdir :: "string \<Rightarrow> bool"
  tree_at :: "string \<Rightarrow> dirtree"
  run_review :: "string \<Rightarrow> exn + 'r"
  print_report_summary :: "'r \<Rightarrow> exn + console"
  save_json_report :: "'r \<Rightarrow> exn + string"
  save_markdown_report :: "'r \<Rightarrow> exn + string"
  scheduler :: "nat list"
  interrupt_join :: bool

text \<open>
  \<open>review_file\<close> is the body of a worker thread, lines 58 to 63, on the shared list
  \<open>reports\<close> and the console. \<open>list.append\<close> is atomic. An exception that is no instance
  of \<open>Exception\<close> ends the thread and nothing else.
\<close>

definition review_file ::
  "'r world \<Rightarrow> string \<Rightarrow> (string \<times> 'r) list \<times> console \<Rightarrow> (string \<times> 'r) list \<times> console"
where
  "review_file w file_path st =
     (case st of (reports, out) \<Rightarrow>
        (case run_review w file_path of
           Inr report \<Rightarrow> (reports @ [(file_path, report)], out)
         | Inl (JSONDecodeError msg) \<Rightarrow>
             (reports, out @ [''Error reviewing '' @ file_path @ '': '' @ msg])
         | Inl (Exception msg) \<Rightarrow>
             (reports, out @ [''Error reviewing '' @ file_path @ '': '' @ msg])
         | Inl e \<Rightarrow> (reports, out)))"

text \<open>
  Lines 65 to 72: one thread for each file, all started, all joined. The threads touch
  the shared state only in \<open>review_file\<close>, so a run is given by the order in which they
  get there. \<open>sched\<close> is the scheduler: each of its numbers picks, among the threads
  still running, the next one to finish; when \<open>sched\<close> is used up the remaining threads
  finish in the order they were started. Every order is the run of some \<open>sched\<close>.
  Starting and joining a thread are taken not to fail.
\<close>

function run_threads ::
  "'r world \<Rightarrow> nat list \<Rightarrow> string list \<Rightarrow> (string \<times> 'r) list \<times> console \<Rightarrow>
   (string \<times> 'r) list \<times> console"
where
  "run_threads w sched [] st = st"
| "run_threads w [] (p # ps) st = run_threads w [] ps (review_file w p st)"
| "run_threads w (k # sched) (p # ps) st =
     (let i = k mod length (p # ps) in
      run_threads w sched (take i (p # ps) @ drop (Suc i) (p # ps))
        (review_file w ((p # ps) ! i) st))"
  by pat_completeness auto
termination
proof (relation "measure (\<lambda>(w, sched, pending, st). length pending)")
  show "wf (measure (\<lambda>(w :: 'r world, sched :: nat list, pending :: string list,
      st :: (string \<times> 'r) list \<times> console). length pending))"
    by simp
next
  fix w :: "'r world" and p :: string and ps :: "string list"
    and st :: "(string \<times> 'r) list \<times> console"
  show "((w, [], ps, review_file w p st), (w, [], p # ps, st))
      \<in> measure (\<lambda>(w, sched, pending, st). length pending)"
    by simp
next
  fix w :: "'r world" and k :: nat and sched :: "nat list" and p :: string
    and ps :: "string list" and st :: "(string \<times> 'r) list \<times> console" and i :: nat
  assume "i = k mod length (p # ps)"
  then have "i < length (p # ps)"
    by simp
  then have "length (take i (p # ps) @ drop (Suc i) (p # ps)) < length (p # ps)"
    by (simp add: min_def)
  then show "((w, sched, take i (p # ps) @ drop (Suc i) (p # ps),
        review_file w ((p # ps) ! i) st), (w, k # sched, p # ps, st))
      \<in> measure (\<lambda>(w, sched, pending, st). length pending)"
    by simp
qed

definition run_project_review ::
  "'r world \<Rightarrow> string \<Rightarrow> console \<Rightarrow> (string \<times> 'r) list \<times> console"
where
  "run_project_review w directory out =
     run_threads w (scheduler w) (scan_directory (tree_at w directory) directory) ([], out)"

section \<open>\<open>main\<close>\<close>

text \<open>Lines 90 to 103, the body of the \<open>try\<close>. \<open>sys.exit(1)\<close> raises \<open>SystemExit 1\<close>.\<close>

definition review_path :: "'r world \<Rightarrow> string \<Rightarrow> console \<Rightarrow> (exn + unit) \<times> console" where
  "review_path w path out =
     (if isfile w path then
        (case run_review w path of
           Inl e \<Rightarrow> (Inl e, out)
         | Inr report \<Rightarrow>
             (case print_report_summary w report of
                Inl e \<Rightarrow> (Inl e, out)
              | Inr printed \<Rightarrow>
                  (case save_json_report w report of
                     Inl e \<Rightarrow> (Inl e, out @ printed)
                   | Inr json_path \<Rightarrow>
                       (case save_markdown_report w report of
                          Inl e \<Rightarrow> (Inl e, out @ printed)
                        | Inr md_path \<Rightarrow>
                            (Inr (), out @ printed @
                               ['' Reports saved:\<newline>   - JSON: '' @ json_path @
                                ''\<newline>   - Markdown: '' @ md_path])))))
      else if isdir w path then
        (if interrupt_join w then (Inl KeyboardInterrupt, out)
         else
           (case run_project_review w path out of
              (reports, out') \<Rightarrow>
                (Inr (), out' @
                   [''\<newline>Project review complete. Reports generated for the following files:''] @
                   map (\<lambda>(file_path, report). '' - '' @ file_path) reports)))
      else (Inl (SystemExit 1), out @ ['' Invalid path. Please provide a file or directory.'']))"

text \<open>\<open>main\<close> with \<open>sys.argv = argv\<close>: how it is left, and the console.\<close>

definition main :: "'r world \<Rightarrow> string list \<Rightarrow> console \<Rightarrow> (exn + unit) \<times> console" where
  "main w argv out =
     (if length argv < 2 then
        (Inl (SystemExit 1),
         out @ ['' Usage: python examples/review.py <file_or_directory_path>'',
                ''Example: python examples/review.py test_samples/buggy_code.py''])
      else
        (let path = argv ! 1 in
         if \<not> path_exists w path then
           (Inl (SystemExit 1), out @ ['' Path not found: '' @ path])
         else
           (case review_path w path out of
              (Inl KeyboardInterrupt, out') \<Rightarrow>
                (Inl (SystemExit 0), out' @ [''\<newline>\<newline>  Review interrupted by user''])
            | (Inl (JSONDecodeError msg), out') \<Rightarrow>
                (Inl (SystemExit 1), out' @ [''\<newline> Error during review: '' @ msg])
            | (Inl (Exception msg), out') \<Rightarrow>
                (Inl (SystemExit 1), out' @ [''\<newline> Error during review: '' @ msg])
            | (r, out') \<Rightarrow> (r, out'))))"

text \<open>
  The exit status of the process that runs \<open>main()\<close> as its last statement: 0 when
  \<open>main\<close> returns, the code of a \<open>SystemExit\<close>, 1 for an uncaught exception (130 for an
  uncaught \<open>KeyboardInterrupt\<close>).
\<close>

fun exit_code :: "exn + unit \<Rightarrow> nat" where
  "exit_code (Inr u) = 0"
| "exit_code (Inl (SystemExit code)) = code"
| "exit_code (Inl KeyboardInterrupt) = 130"
| "exit_code (Inl e) = 1"

section \<open>Notions of the specification\<close>

text \<open>
  The part of \<open>s\<close> in front of the first occurrence of \<open>sep\<close> (all of \<open>s\<close> when there is
  none), and the part behind it.
\<close>

definition before :: "string \<Rightarrow> string \<Rightarrow> string" where
  "before sep s = (case str_find sep s of None \<Rightarrow> s | Some j \<Rightarrow> take j s)"

definition after :: "string \<Rightarrow> string \<Rightarrow> string" where
  "after sep s = (case str_find sep s of None \<Rightarrow> [] | Some i \<Rightarrow> drop (i + length sep) s)"

text \<open>
  The candidate as the specification words it: what lies between the first opening
  marker and the next \<open>```\<close>, trimmed; the whole text, trimmed, when it has no fence.
\<close>

definition claimed_candidate :: "string \<Rightarrow> string" where
  "claimed_candidate text =
     str_strip
       (if str_contains fence_json text then before fence (after fence_json text)
        else if str_contains fence text then before fence (after fence text)
        else text)"

text \<open>
  The candidate by the order of the splits: behind the first \<open>```json\<close> the text is cut
  at the next \<open>```json\<close> first and at the first \<open>```\<close> left in it then. A text
  without a fence is taken as it is.
\<close>

definition candidate :: "string \<Rightarrow> string" where
  "candidate text =
     (if str_contains fence_json text
      then str_strip (before fence (before fence_json (after fence_json text)))
      else if str_contains fence text then str_strip (before fence (after fence text))
      else text)"

text \<open>
  The files below a directory, as the specification words it: \<open>file_under root tree path
  name\<close> when the tree at \<open>root\<close> holds, at any depth, a file called \<open>name\<close> whose path
  is \<open>path\<close>.
\<close>

inductive file_under :: "string \<Rightarrow> dirtree \<Rightarrow> string \<Rightarrow> string \<Rightarrow> bool" where
  here: "name \<in> set fs \<Longrightarrow> file_under root (Dir fs ds) (path_join root name) name"
| below: "(d, sub) \<in> set ds \<Longrightarrow> file_under (path_join root d) sub path name \<Longrightarrow>
     file_under root (Dir fs ds) path name"

code_pred file_under .

text \<open>
  What a file system guarantees of a directory: the names of its entries are not empty,
  hold no \<open>/\<close> and differ from each other.
\<close>

definition valid_name :: "string \<Rightarrow> bool" where
  "valid_name name = (name \<noteq> [] \<and> CHR ''/'' \<notin> set name)"

fun wf_tree :: "dirtree \<Rightarrow> bool" where
  "wf_tree (Dir fs ds) =
     (distinct (fs @ map fst ds) \<and> list_all valid_name (fs @ map fst ds) \<and>
      list_all (\<lambda>entry. wf_tree (snd entry)) ds)"

text \<open>The entries that the workers whose pipeline returns append, in the order of the files.\<close>

definition successes :: "'r world \<Rightarrow> string list \<Rightarrow> (string \<times> 'r) list" where
  "successes w code_files =
     concat (map (\<lambda>p. case run_review w p of Inl e \<Rightarrow> [] | Inr report \<Rightarrow> [(p, report)])
       code_files)"

text \<open>What every path below \<open>root\<close> starts with.\<close>

definition stem :: "string \<Rightarrow> string" where
  "stem root = (if root = [] \<or> suffix ''/'' root then root else root @ ''/'')"

section \<open>Sample inputs\<close>

text \<open>An agent on the local backend whose call ends in \<open>r\<close> for every prompt.\<close>

definition replying :: "exn + string \<Rightarrow> agent" where
  "replying r =
     \<lparr>use_openai = False, openai_content = (\<lambda>prompt. r), ollama_content = (\<lambda>prompt. r)\<rparr>"

definition json_x1 :: string where
  \<open>json_x1 = ''{"x":1}''\<close>

definition inner_x1 :: string where
  \<open>inner_x1 = '' {"x":1} ''\<close>

definition block_x1 :: string where
  \<open>block_x1 = ''```json {"x":1} ```''\<close>

text \<open>
  A parser for the examples. It gives what \<open>json.loads\<close> gives on the texts the
  examples hand to it: the mapping for \<open>{"x":1}\<close>, and a \<open>JSONDecodeError\<close> for the
  others, none of which is JSON. The theorems hold for every parser.
\<close>

definition sample_loads :: "string \<Rightarrow> exn + pyval" where
  "sample_loads s =
     (if s = json_x1 then Inr (PDict [(''x'', PInt 1)])
      else Inl (JSONDecodeError ''Expecting value: line 1 column 1 (char 0)''))"

text \<open>
  A text in which the closing fence of the block runs on into a second \<open>```json\<close>, and
  what \<open>query\<close> hands to the parser for it.
\<close>

definition run_on_text :: string where
  \<open>run_on_text = ''```json {"x":1} ````json''\<close>

definition run_on_candidate :: string where
  \<open>run_on_candidate = ''{"x":1} `''\<close>

definition long_text :: string where
  "long_text = replicate 201 CHR ''a''"

text \<open>A template without fields: formatting gives the template back.\<close>

definition sample_format :: "string \<Rightarrow> int \<Rightarrow> int \<Rightarrow> exn + string" where
  "sample_format prompt_template bug_count opt_count = Inr prompt_template"

text \<open>
  A directory \<open>D\<close> with three files and a subdirectory with two; a pipeline that
  fails on \<open>D/a.py\<close> and is interrupted on \<open>a.py\<close>; and a world with both, in which
  the worker started last finishes first.
\<close>

definition sample_tree :: dirtree where
  "sample_tree = Dir [''a.py'', ''b.txt'', ''x.PY''] [(''sub'', Dir [''c.go'', ''d.js''] [])]"

definition sample_review :: "string \<Rightarrow> exn + string" where
  "sample_review file_path =
     (if file_path = ''D/a.py'' then Inl (Exception ''cannot read'')
      else if file_path = ''a.py'' then Inl KeyboardInterrupt
      else Inr (''report on '' @ file_path))"

definition sample_world :: "string world" where
  "sample_world =
     \<lparr>path_exists = (\<lambda>path. path = ''D'' \<or> path = ''a.py''),
      isfile = (\<lambda>path. path = ''a.py''),
      isdir = (\<lambda>path. path = ''D''),
      tree_at = (\<lambda>path. sample_tree),
      run_review = sample_review,
      print_report_summary = (\<lambda>report. Inr [report]),
      save_json_report = (\<lambda>report. Inr ''report.json''),
      save_markdown_report = (\<lambda>report. Inr ''report.md''),
      scheduler = [2],
      interrupt_join = False\<rparr>"

section \<open>Splitting and extraction\<close>

declare split_at.simps [simp del]

lemma split_at_first: "sep \<noteq> [] \<Longrightarrow> getitem (split_at sep s) 0 = Inr (before sep s)"
  by (subst split_at.simps) (simp add: getitem_def before_def split: option.splits)

lemma split_at_second:
  "sep \<noteq> [] \<Longrightarrow> str_contains sep s \<Longrightarrow>
   getitem (split_at sep s) (Suc 0) = Inr (before sep (after sep s))"
  apply (subst split_at.simps)
  apply (subst split_at.simps)
  apply (auto simp add: getitem_def before_def after_def str_contains_def split: option.splits)
  done

lemma str_find_take:
  "sep \<noteq> [] \<Longrightarrow> str_find sep s = Some i \<Longrightarrow> str_find sep (take i s) = None"
proof (induction s arbitrary: i)
  case Nil
  then show ?case by simp
next
  case (Cons c cs)
  show ?case
  proof (cases "prefix sep (c # cs)")
    case True
    with Cons.prems show ?thesis by simp
  next
    case False
    with Cons.prems obtain j where j: "str_find sep cs = Some j" "i = Suc j"
      by auto
    have "\<not> prefix sep (c # take j cs)"
    proof
      assume "prefix sep (c # take j cs)"
      moreover have "prefix (c # take j cs) (c # cs)"
        by (simp add: take_is_prefix)
      ultimately have "prefix sep (c # cs)"
        by (rule prefix_order.trans)
      with False show False ..
    qed
    with Cons.IH [OF Cons.prems(1) j(1)] j(2) show ?thesis by simp
  qed
qed

lemma before_before: "sep \<noteq> [] \<Longrightarrow> before sep (before sep s) = before sep s"
  by (auto simp add: before_def str_find_take split: option.splits)

lemma str_find_longer:
  "prefix short sep \<Longrightarrow> str_find short s = None \<Longrightarrow> str_find sep s = None"
proof (induction s)
  case Nil
  then show ?case by (auto split: if_splits)
next
  case (Cons c cs)
  from Cons.prems(2) have no: "\<not> prefix short (c # cs)" and rest: "str_find short cs = None"
    by (auto split: if_splits)
  have "\<not> prefix sep (c # cs)"
  proof
    assume "prefix sep (c # cs)"
    with Cons.prems(1) have "prefix short (c # cs)"
      by (rule prefix_order.trans)
    with no show False ..
  qed
  with Cons.IH [OF Cons.prems(1) rest] show ?case by simp
qed

lemma before_none: "\<not> str_contains sep s \<Longrightarrow> before sep s = s"
  by (simp add: before_def str_contains_def)

lemma fenced_eq:
  "marker \<noteq> [] \<Longrightarrow> str_contains marker content \<Longrightarrow>
   fenced marker content = Inr (str_strip (before fence (before marker (after marker content))))"
  by (simp add: fenced_def and_then_def str_split_def split_at_first split_at_second fence_def)

lemma extract_json_candidate: "extract_json text = Inr (candidate text)"
proof -
  have "before fence (before fence s) = before fence s" for s
    by (rule before_before) (simp add: fence_def)
  moreover have "fence_json \<noteq> []" and "fence \<noteq> []"
    by (simp_all add: fence_json_def fence_def)
  ultimately show ?thesis
    by (simp add: extract_json_def candidate_def fenced_eq)
qed

lemma query_reply:
  "backend_content self prompt = Inr text \<Longrightarrow>
   query json_loads self prompt True out =
     (case json_loads (candidate text) of
        Inl e \<Rightarrow> except_clauses e (Some (candidate text)) out
      | Inr parsed \<Rightarrow> (Inr parsed, out))"
  by (simp add: query_def extract_json_candidate)

lemma query_raise:
  "backend_content self prompt = Inl e \<Longrightarrow>
   query json_loads self prompt parse_json out = except_clauses e None out"
  by (simp add: query_def)

lemma backend_replying: "backend_content (replying r) prompt = r"
  by (simp add: backend_content_def replying_def)

text \<open>
  A \<open>JSONDecodeError\<close> that the backend call itself raises, as \<open>response.json()\<close> does on
  a reply that is no JSON, reaches the first handler before \<open>content\<close> is assigned: the
  handler raises \<open>UnboundLocalError\<close>, and \<open>query\<close> raises it to its caller.
\<close>

lemma query_unbound_content:
  "backend_content self prompt = Inl (JSONDecodeError msg) \<Longrightarrow>
   query json_loads self prompt parse_json out =
     (Inl UnboundLocalError, out @ ['' JSON parsing error: '' @ msg])"
  by (simp add: query_raise)

section \<open>Claims about \<open>query\<close> and \<open>generate_summary\<close>\<close>

lemma block_x1_parts: "block_x1 = fence_json @ inner_x1 @ fence"
  by (simp add: block_x1_def fence_json_def inner_x1_def fence_def)

lemma find_inner: "str_find fence (inner_x1 @ fence @ z) = Some 9"
  by (simp add: fence_def inner_x1_def)

lemma before_block: "before fence (inner_x1 @ fence @ z) = inner_x1"
  unfolding before_def find_inner by (simp add: inner_x1_def)

lemma before_inner: "before fence inner_x1 = inner_x1"
  by (simp add: before_def fence_def inner_x1_def)

lemma strip_inner: "str_strip inner_x1 = json_x1"
  by (simp add: str_strip_def isspace_def inner_x1_def json_x1_def)

lemma before_json_far:
  assumes \<open>\<not> prefix ''`json'' post\<close> and \<open>\<not> prefix ''``json'' post\<close>
    and \<open>\<not> prefix ''json'' post\<close>
  shows "before fence_json (inner_x1 @ fence @ post) = inner_x1 @ fence @ before fence_json post"
  using assms
  by (simp add: fence_json_def fence_def inner_x1_def before_def split: option.splits)

lemma before_json_near:
  assumes \<open>prefix ''json'' post\<close>
  shows "before fence_json (inner_x1 @ fence @ post) = inner_x1"
  using assms
  by (simp add: fence_json_def fence_def inner_x1_def before_def split: option.splits)

lemma candidate_block:
  assumes "text = pre @ block_x1 @ post"
    and "str_find fence_json text = Some (length pre)"
    and \<open>\<not> prefix ''`json'' post\<close> and \<open>\<not> prefix ''``json'' post\<close>
  shows "candidate text = json_x1"
proof -
  have c: "str_contains fence_json text"
    using assms(2) by (simp add: str_contains_def)
  have a: "after fence_json text = inner_x1 @ fence @ post"
    using assms(1,2) by (simp add: after_def block_x1_parts)
  have "before fence (before fence_json (inner_x1 @ fence @ post)) = inner_x1"
  proof (cases \<open>prefix ''json'' post\<close>)
    case True
    from before_json_near [OF True] show ?thesis by (simp add: before_inner)
  next
    case False
    from before_json_far [OF assms(3,4) False] show ?thesis by (simp add: before_block)
  qed
  with c a show ?thesis
    by (simp add: candidate_def strip_inner)
qed

lemma candidate_long_text: "candidate long_text = long_text"
  by code_simp

lemma fst_except_clauses:
  "fst (except_clauses e content out) = fst (except_clauses e content out')"
  by (cases e; cases content) simp_all

text \<open>
  C1, as amended. When the candidate fails to parse with a \<open>JSONDecodeError\<close>, \<open>query\<close>
  with \<open>parse_json=True\<close> returns, and does not raise, the record with \<open>error\<close> equal to
  \<open>json_parse_error\<close> and \<open>raw_response\<close> equal to the whole candidate handed to the
  parser: the text itself when it has no fence, the trimmed fenced part otherwise. Only
  the line printed to the console is cut to the first 200 characters of the candidate.
\<close>

theorem json_parse_error_record:
  assumes "backend_content self prompt = Inr text"
    and "json_loads (candidate text) = Inl (JSONDecodeError msg)"
  shows "query json_loads self prompt True out =
    (Inr (PDict [(''error'', PStr ''json_parse_error''), (''raw_response'', PStr (candidate text))]),
     out @ ['' JSON parsing error: '' @ msg,
            ''Raw response: '' @ take 200 (candidate text) @ ''...''])"
  using assms by (simp add: query_reply)

theorem json_parse_error_record_witness:
  "query sample_loads (replying (Inr long_text)) ''p'' True [] =
    (Inr (PDict [(''error'', PStr ''json_parse_error''), (''raw_response'', PStr long_text)]),
     ['' JSON parsing error: Expecting value: line 1 column 1 (char 0)'',
      ''Raw response: '' @ replicate 200 CHR ''a'' @ ''...''])"
proof -
  have reply: "backend_content (replying (Inr long_text)) ''p'' = Inr long_text"
    by (simp add: backend_replying)
  have fails: "sample_loads (candidate long_text) =
      Inl (JSONDecodeError ''Expecting value: line 1 column 1 (char 0)'')"
    by code_simp
  have cut: "take 200 long_text = replicate 200 CHR ''a''"
    by (simp add: long_text_def)
  from json_parse_error_record [where json_loads = sample_loads and out = "[]", OF reply fails]
  show ?thesis
    by (simp add: candidate_long_text cut)
qed

theorem json_parse_error_counterexample:
  "fst (query sample_loads (replying (Inr long_text)) ''p'' True []) =
     Inr (PDict [(''error'', PStr ''json_parse_error''), (''raw_response'', PStr long_text)])
   \<and> length long_text = 201
   \<and> long_text \<noteq> take 200 long_text"
proof -
  have "sample_loads long_text = Inl (JSONDecodeError ''Expecting value: line 1 column 1 (char 0)'')"
    by code_simp
  then have "fst (query sample_loads (replying (Inr long_text)) ''p'' True []) =
     Inr (PDict [(''error'', PStr ''json_parse_error''), (''raw_response'', PStr long_text)])"
    by (simp add: query_reply [OF backend_replying] candidate_long_text)
  moreover have "length long_text = 201"
    by (simp add: long_text_def)
  moreover have "long_text \<noteq> take 200 long_text"
  proof
    assume "long_text = take 200 long_text"
    then have "length long_text = length (take 200 long_text)"
      by simp
    then show False
      by (simp add: long_text_def)
  qed
  ultimately show ?thesis
    by simp
qed

text \<open>
  C2, as amended. Extraction follows the priority: a text with a \<open>```json\<close> marker
  gives the text behind the first such marker, cut at the next \<open>```json\<close> marker if
  there is one and then at the first \<open>```\<close> marker left in it, trimmed; otherwise a text
  with a \<open>```\<close> marker gives the text between the first and the next \<open>```\<close>, trimmed;
  otherwise the whole text is the candidate, untrimmed. The candidate is parsed and on
  success the parsed value is returned as it is. In particular, a text whose first
  \<open>```json\<close> marker opens the block \<open>```json {"x":1} ```\<close>, and in which the text after
  the block does not begin with \<open>`json\<close> or \<open>``json\<close>, has the candidate \<open>{"x":1}\<close>.
\<close>

theorem extraction_priority:
  assumes "backend_content self prompt = Inr text"
  shows "extract_json text = Inr (candidate text)
    \<and> (\<forall>parsed. json_loads (candidate text) = Inr parsed \<longrightarrow>
          query json_loads self prompt True out = (Inr parsed, out))
    \<and> (\<forall>pre post. text = pre @ block_x1 @ post \<and> str_find fence_json text = Some (length pre)
          \<and> \<not> prefix (CHR 0x60 # ''json'') post \<and> \<not> prefix (CHR 0x60 # CHR 0x60 # ''json'') post
          \<longrightarrow> candidate text = json_x1)"
proof (intro conjI allI impI)
  show "extract_json text = Inr (candidate text)"
    by (rule extract_json_candidate)
next
  fix parsed
  assume "json_loads (candidate text) = Inr parsed"
  with assms show "query json_loads self prompt True out = (Inr parsed, out)"
    by (simp add: query_reply)
next
  fix pre post
  assume "text = pre @ block_x1 @ post \<and> str_find fence_json text = Some (length pre)
          \<and> \<not> prefix (CHR 0x60 # ''json'') post \<and> \<not> prefix (CHR 0x60 # CHR 0x60 # ''json'') post"
  then have "text = pre @ block_x1 @ post" and "str_find fence_json text = Some (length pre)"
    and "\<not> prefix (CHR 0x60 # ''json'') post" and "\<not> prefix (CHR 0x60 # CHR 0x60 # ''json'') post"
    by blast+
  then show "candidate text = json_x1"
    by (rule candidate_block)
qed

theorem extraction_priority_witness:
  "extract_json (''Here: '' @ block_x1 @ '' Done.'') = Inr json_x1
   \<and> query sample_loads (replying (Inr (''Here: '' @ block_x1 @ '' Done.''))) ''p'' True [] =
       (Inr (PDict [(''x'', PInt 1)]), [])"
proof -
  let ?text = "''Here: '' @ block_x1 @ '' Done.''"
  have reply: "backend_content (replying (Inr ?text)) ''p'' = Inr ?text"
    by (simp add: backend_replying)
  note inst = extraction_priority [where json_loads = sample_loads and out = "[]", OF reply]
  have "?text = ''Here: '' @ block_x1 @ '' Done.'' \<and>
        str_find fence_json ?text = Some (length ''Here: '') \<and>
        \<not> prefix (CHR 0x60 # ''json'') '' Done.'' \<and>
        \<not> prefix (CHR 0x60 # CHR 0x60 # ''json'') '' Done.''"
    by code_simp
  with inst have cand: "candidate ?text = json_x1"
    by blast
  have "sample_loads json_x1 = Inr (PDict [(''x'', PInt 1)])"
    by (simp add: sample_loads_def)
  with inst cand have "query sample_loads (replying (Inr ?text)) ''p'' True [] =
       (Inr (PDict [(''x'', PInt 1)]), [])"
    by metis
  moreover from inst cand have "extract_json ?text = Inr json_x1"
    by metis
  ultimately show ?thesis
    by (rule_tac conjI)
qed

theorem extraction_counterexample:
  "run_on_text = block_x1 @ CHR 0x60 # ''json''
   \<and> extract_json run_on_text = Inr run_on_candidate
   \<and> claimed_candidate run_on_text = json_x1
   \<and> fst (query sample_loads (replying (Inr run_on_text)) ''p'' True []) =
       Inr (PDict [(''error'', PStr ''json_parse_error''), (''raw_response'', PStr run_on_candidate)])"
  by code_simp

text \<open>
  C9. When the text has an opening marker (the first \<open>```json\<close>, or with no such marker
  the first \<open>```\<close>) and no \<open>```\<close> behind it, the candidate is all that follows the
  opening marker, trimmed; so when that parses, \<open>query\<close> with \<open>parse_json=True\<close> returns
  the parsed value and no error record.
\<close>

theorem unclosed_fence:
  assumes "backend_content self prompt = Inr text"
    and "str_contains fence_json text \<and> marker = fence_json
         \<or> \<not> str_contains fence_json text \<and> str_contains fence text \<and> marker = fence"
    and "\<not> str_contains fence (after marker text)"
  shows "extract_json text = Inr (str_strip (after marker text))
    \<and> (\<forall>parsed. json_loads (str_strip (after marker text)) = Inr parsed \<longrightarrow>
          query json_loads self prompt True out = (Inr parsed, out))"
proof -
  have "prefix fence fence_json"
    by (simp add: fence_def fence_json_def)
  with assms(3) have "\<not> str_contains fence_json (after marker text)"
    by (auto simp add: str_contains_def dest: str_find_longer)
  with assms(2,3) have "candidate text = str_strip (after marker text)"
    by (auto simp add: candidate_def before_none)
  with assms(1) show ?thesis
    by (simp add: extract_json_candidate query_reply)
qed

theorem unclosed_fence_witness:
  "extract_json (''Result: '' @ fence_json @ inner_x1) = Inr json_x1
   \<and> query sample_loads (replying (Inr (''Result: '' @ fence_json @ inner_x1))) ''p'' True [] =
       (Inr (PDict [(''x'', PInt 1)]), [])"
proof -
  let ?text = "''Result: '' @ fence_json @ inner_x1"
  have reply: "backend_content (replying (Inr ?text)) ''p'' = Inr ?text"
    by (simp add: backend_replying)
  have marked: "str_contains fence_json ?text \<and> fence_json = fence_json
         \<or> \<not> str_contains fence_json ?text \<and> str_contains fence ?text \<and> fence_json = fence"
    by code_simp
  have unclosed: "\<not> str_contains fence (after fence_json ?text)"
    by code_simp
  note inst = unclosed_fence [where json_loads = sample_loads and out = "[]",
      OF reply marked unclosed]
  have rest: "str_strip (after fence_json ?text) = json_x1"
    by code_simp
  have "sample_loads (str_strip (after fence_json ?text)) = Inr (PDict [(''x'', PInt 1)])"
    by code_simp
  with inst have "query sample_loads (replying (Inr ?text)) ''p'' True [] =
       (Inr (PDict [(''x'', PInt 1)]), [])"
    by blast
  moreover from inst rest have "extract_json ?text = Inr json_x1"
    by metis
  ultimately show ?thesis
    by (rule_tac conjI)
qed

text \<open>
  C8. The step from the reply text to the result is deterministic: two runs of \<open>query\<close>
  with \<open>parse_json=True\<close> that get the same text from the backend give the same result,
  whatever the agent, the prompt and the console were before.
\<close>

theorem extraction_deterministic:
  assumes "backend_content self prompt = Inr text"
    and "backend_content self' prompt' = Inr text"
  shows "fst (query json_loads self prompt True out) =
         fst (query json_loads self' prompt' True out')"
  using assms
  by (simp add: query_reply fst_except_clauses [of _ _ out out'] split: sum.splits)

theorem extraction_deterministic_witness:
  "(case query sample_loads (replying (Inr ''no json'')) ''p'' True [] of
      (first, out) \<Rightarrow>
        first = fst (query sample_loads (replying (Inr ''no json'')) ''again'' True out))"
proof -
  have reply: "backend_content (replying (Inr ''no json'')) prompt = Inr ''no json''" for prompt
    by (simp add: backend_replying)
  from extraction_deterministic [OF reply reply] show ?thesis
    by (simp split: prod.splits) (metis fst_conv)
qed

text \<open>
  C5, as amended. An exception raised by the backend call that is an instance of
  \<open>Exception\<close> and no JSON decode failure is caught: \<open>query\<close> prints it and returns the
  record with \<open>error\<close> equal to its message. A \<open>KeyboardInterrupt\<close> or \<open>SystemExit\<close>
  raised by the backend call is not caught and reaches the caller of \<open>query\<close>.
\<close>

theorem backend_exception:
  assumes "backend_content self prompt = Inl e"
    and "\<forall>msg. e \<noteq> JSONDecodeError msg"
  shows "query json_loads self prompt parse_json out =
    (case e of
       Exception msg \<Rightarrow>
         (Inr (PDict [(''error'', PStr msg)]), out @ ['' Error querying model: '' @ msg])
     | _ \<Rightarrow> (Inl e, out))"
  using assms by (cases e) (simp_all add: query_raise)

theorem backend_exception_witness:
  "query sample_loads (replying (Inl (Exception ''Connection refused''))) ''p'' True [] =
     (Inr (PDict [(''error'', PStr ''Connection refused'')]),
      ['' Error querying model: Connection refused''])"
proof -
  have raised: "backend_content (replying (Inl (Exception ''Connection refused''))) ''p'' =
      Inl (Exception ''Connection refused'')"
    by (simp add: backend_replying)
  have other: "\<forall>msg. Exception ''Connection refused'' \<noteq> JSONDecodeError msg"
    by simp
  from backend_exception [OF raised other] show ?thesis
    by simp
qed

theorem backend_exception_counterexample:
  "query sample_loads (replying (Inl KeyboardInterrupt)) ''p'' True [] = (Inl KeyboardInterrupt, [])"
  by (simp add: query_raise backend_replying)

text \<open>
  C10, as amended. When the template formats to a prompt, \<open>generate_summary\<close> returns the
  reply text when the backend call gives one, and the string \<open>No summary generated\<close>
  when the backend call raises an instance of \<open>Exception\<close> that is no JSON decode
  failure (\<open>query\<close> then returns an error record). It raises when the backend call
  raises \<open>KeyboardInterrupt\<close> or \<open>SystemExit\<close>, which \<open>query\<close> does not catch.
\<close>

theorem summary_or_fallback:
  assumes "format prompt_template bug_count opt_count = Inr prompt"
    and "backend_content self prompt = r"
    and "\<forall>msg. r \<noteq> Inl (JSONDecodeError msg)"
  shows "generate_summary json_loads format self bug_count opt_count prompt_template out =
    (case r of
       Inr text \<Rightarrow> (Inr (PStr text), out)
     | Inl (Exception msg) \<Rightarrow>
         (Inr (PStr ''No summary generated''), out @ ['' Error querying model: '' @ msg])
     | Inl e \<Rightarrow> (Inl e, out))"
proof (cases r)
  case (Inr reply)
  with assms(1,2) show ?thesis
    by (simp add: generate_summary_def query_def)
next
  case (Inl e)
  with assms show ?thesis
    by (cases e) (simp_all add: generate_summary_def query_raise)
qed

theorem summary_or_fallback_witness:
  "generate_summary sample_loads sample_format (replying (Inr ''Two bugs.'')) 2 0 ''Summarise'' [] =
     (Inr (PStr ''Two bugs.''), [])
   \<and> generate_summary sample_loads sample_format (replying (Inl (Exception ''timed out''))) 2 0
       ''Summarise'' [] =
     (Inr (PStr ''No summary generated''), ['' Error querying model: timed out''])"
proof -
  have formatted: "sample_format ''Summarise'' 2 0 = Inr ''Summarise''"
    by (simp add: sample_format_def)
  have ok: "\<forall>msg. (Inr ''Two bugs.'' :: exn + string) \<noteq> Inl (JSONDecodeError msg)"
    by simp
  have failed: "\<forall>msg. (Inl (Exception ''timed out'') :: exn + string) \<noteq> Inl (JSONDecodeError msg)"
    by simp
  from summary_or_fallback [where format = sample_format and json_loads = sample_loads
        and out = "[]", OF formatted backend_replying ok]
    summary_or_fallback [where format = sample_format and json_loads = sample_loads
        and out = "[]", OF formatted backend_replying failed]
  show ?thesis
    by simp
qed

theorem summary_counterexample:
  "generate_summary sample_loads sample_format (replying (Inl KeyboardInterrupt)) 2 0
     ''Summarise'' [] = (Inl KeyboardInterrupt, [])"
  by (simp add: generate_summary_def sample_format_def query_raise backend_replying)

section \<open>File discovery\<close>

lemma concat_concat_map: "concat (concat xss) = concat (map concat xss)"
  by (induction xss) simp_all

lemma scan_directory_Dir:
  "scan_directory (Dir fs ds) root =
     map (path_join root) (filter is_code_file fs) @
     concat (map (\<lambda>entry. scan_directory (snd entry) (path_join root (fst entry))) ds)"
  by (simp add: scan_directory_def map_concat concat_concat_map comp_def)

lemma is_code_file_iff: "is_code_file name \<longleftrightarrow> (\<exists>ext\<in>set supported_extensions. suffix ext name)"
  by (simp add: is_code_file_def endswith_def list_ex_iff)

lemma scan_sound:
  "path \<in> set (scan_directory tree root) \<Longrightarrow>
   \<exists>name. file_under root tree path name \<and> is_code_file name"
proof (induction root tree arbitrary: path rule: walk.induct)
  case (1 root fs ds)
  from "1.prems" consider
    (direct) name where "name \<in> set fs" "is_code_file name" "path = path_join root name"
  | (nested) entry where "entry \<in> set ds"
      "path \<in> set (scan_directory (snd entry) (path_join root (fst entry)))"
    by (auto simp add: scan_directory_Dir)
  then show ?case
  proof cases
    case direct
    then show ?thesis by (auto intro: file_under.here)
  next
    case nested
    from "1.IH" [OF nested] obtain name
      where "file_under (path_join root (fst entry)) (snd entry) path name" "is_code_file name"
      by blast
    moreover from nested(1) have "(fst entry, snd entry) \<in> set ds"
      by simp
    ultimately have "file_under root (Dir fs ds) path name"
      by (intro file_under.below)
    with \<open>is_code_file name\<close> show ?thesis
      by blast
  qed
qed

lemma scan_complete:
  "file_under root tree path name \<Longrightarrow> is_code_file name \<Longrightarrow>
   path \<in> set (scan_directory tree root)"
proof (induction rule: file_under.induct)
  case (here name fs root ds)
  then show ?case by (simp add: scan_directory_Dir)
next
  case (below d sub ds root path name fs)
  then show ?case by (force simp add: scan_directory_Dir)
qed

lemma upper_case_excluded: "suffix ''.PY'' name \<Longrightarrow> \<not> is_code_file name"
proof
  assume py: "suffix ''.PY'' name" and "is_code_file name"
  then obtain ext where ext: "ext \<in> set supported_extensions" "suffix ext name"
    by (auto simp add: is_code_file_iff)
  from py have "name \<noteq> []" and "last name = CHR ''Y''"
    by (auto simp add: suffix_def)
  moreover from ext(1) have "ext \<noteq> []" and "last ext \<noteq> CHR ''Y''"
    by (auto simp add: supported_extensions_def)
  moreover from ext(2) \<open>ext \<noteq> []\<close> have "last name = last ext"
    by (auto simp add: suffix_def)
  ultimately show False by simp
qed

text \<open>
  C4. \<open>scan_directory\<close> returns exactly the paths of the files below the directory, at
  any depth, whose name ends with one of \<open>.py .js .ts .java .cpp .c .go .rb .php\<close>; the
  test tells upper case from lower case, so a name that ends in \<open>.PY\<close> does not pass it.
\<close>

theorem scan_directory_exact:
  "set (scan_directory tree directory) =
     {path. \<exists>name. file_under directory tree path name \<and>
        (\<exists>ext\<in>set supported_extensions. suffix ext name)}
   \<and> (\<forall>name. suffix ''.PY'' name \<longrightarrow> \<not> is_code_file name)"
  using scan_sound [of _ tree directory] scan_complete [of directory tree]
  by (auto simp add: is_code_file_iff [symmetric] upper_case_excluded)

theorem scan_directory_exact_witness:
  "set (scan_directory sample_tree ''D'') = {''D/a.py'', ''D/sub/c.go'', ''D/sub/d.js''}
   \<and> file_under ''D'' sample_tree ''D/x.PY'' ''x.PY''
   \<and> ''D/x.PY'' \<notin> set (scan_directory sample_tree ''D'')
   \<and> \<not> is_code_file ''x.PY''"
proof -
  have scan: "scan_directory sample_tree ''D'' = [''D/a.py'', ''D/sub/c.go'', ''D/sub/d.js'']"
    by code_simp
  have "path_join ''D'' ''x.PY'' = ''D/x.PY''"
    by code_simp
  with file_under.here [of "''x.PY''" "[''a.py'', ''b.txt'', ''x.PY'']" "''D''"]
  have under: "file_under ''D'' sample_tree ''D/x.PY'' ''x.PY''"
    by (simp add: sample_tree_def)
  have "suffix ''.PY'' ''x.PY''"
    by code_simp
  with scan_directory_exact [of sample_tree "''D''"] have "\<not> is_code_file ''x.PY''"
    by blast
  with scan under show ?thesis
    by simp
qed

section \<open>Paths of a well-formed tree are distinct\<close>

lemma valid_name_no_slash: "valid_name name \<Longrightarrow> \<not> prefix ''/'' name"
  by (cases name) (auto simp add: valid_name_def)

lemma path_join_stem: "valid_name name \<Longrightarrow> path_join root name = stem root @ name"
  by (simp add: path_join_def stem_def valid_name_no_slash)

lemma last_not_member: "d \<noteq> [] \<Longrightarrow> c \<notin> set d \<Longrightarrow> last d \<noteq> c"
  using last_in_set [of d] by auto

lemma suffix_single: "suffix [c] xs \<longleftrightarrow> xs \<noteq> [] \<and> last xs = c"
  by (cases xs rule: rev_cases) auto

lemma stem_path_join:
  assumes "valid_name d"
  shows "stem (path_join root d) = stem root @ d @ ''/''"
proof -
  from assms have "d \<noteq> []" and "CHR ''/'' \<notin> set d"
    by (simp_all add: valid_name_def)
  then have "last d \<noteq> CHR ''/''"
    by (rule last_not_member)
  with \<open>d \<noteq> []\<close> have "stem root @ d \<noteq> []" and "\<not> suffix ''/'' (stem root @ d)"
    by (simp_all add: suffix_single)
  then have "stem (stem root @ d) = stem root @ d @ ''/''"
    by (simp add: stem_def [of "stem root @ d"])
  with assms show ?thesis
    by (simp add: path_join_stem)
qed

lemma scan_below_stem:
  "wf_tree tree \<Longrightarrow> path \<in> set (scan_directory tree root) \<Longrightarrow>
   \<exists>rel. path = stem root @ rel"
proof (induction root tree arbitrary: path rule: walk.induct)
  case (1 root fs ds)
  from "1.prems"(2) consider
    (direct) name where "name \<in> set fs" "path = path_join root name"
  | (nested) entry where "entry \<in> set ds"
      "path \<in> set (scan_directory (snd entry) (path_join root (fst entry)))"
    by (auto simp add: scan_directory_Dir)
  then show ?case
  proof cases
    case direct
    with "1.prems"(1) have "valid_name name"
      by (simp add: list_all_iff)
    with direct(2) show ?thesis
      by (simp add: path_join_stem)
  next
    case nested
    with "1.prems"(1) have "wf_tree (snd entry)" and "valid_name (fst entry)"
      by (simp_all add: list_all_iff)
    with "1.IH" [OF nested(1) _ nested(2)] obtain rel
      where "path = stem root @ fst entry @ ''/'' @ rel"
      by (auto simp add: stem_path_join)
    then show ?thesis
      by blast
  qed
qed

lemma first_component: "c \<notin> set d \<Longrightarrow> takeWhile (\<lambda>x. x \<noteq> c) (d @ c # rel) = d"
  by (induction d) auto

lemma distinct_concat_keyed:
  assumes "distinct (map fst ds)"
    and "\<And>entry. entry \<in> set ds \<Longrightarrow> distinct (g entry)"
    and "\<And>entry path. entry \<in> set ds \<Longrightarrow> path \<in> set (g entry) \<Longrightarrow> key path = fst entry"
  shows "distinct (concat (map g ds))"
  using assms
proof (induction ds)
  case Nil
  then show ?case by simp
next
  case (Cons entry ds)
  have "set (g entry) \<inter> set (concat (map g ds)) = {}"
  proof (rule ccontr)
    assume "set (g entry) \<inter> set (concat (map g ds)) \<noteq> {}"
    then obtain path other where "path \<in> set (g entry)" "other \<in> set ds" "path \<in> set (g other)"
      by auto
    with Cons.prems(3) have "fst other = fst entry"
      by (metis list.set_intros(1) list.set_intros(2))
    with \<open>other \<in> set ds\<close> Cons.prems(1) show False
      by (auto simp add: image_iff)
  qed
  moreover have "distinct (concat (map g ds))"
    using Cons.prems by (intro Cons.IH) auto
  moreover have "distinct (g entry)"
    using Cons.prems(2) by simp
  ultimately show ?case
    by simp
qed

lemma scan_directory_distinct: "wf_tree tree \<Longrightarrow> distinct (scan_directory tree root)"
proof (induction root tree rule: walk.induct)
  case (1 root fs ds)
  let ?key = "\<lambda>path. takeWhile (\<lambda>c. c \<noteq> CHR ''/'') (drop (length (stem root)) path)"
  let ?g = "\<lambda>entry. scan_directory (snd entry) (path_join root (fst entry))"
  from "1.prems" have names: "distinct fs" "distinct (map fst ds)"
    and valid_fs: "\<And>name. name \<in> set fs \<Longrightarrow> valid_name name"
    and valid_ds: "\<And>entry. entry \<in> set ds \<Longrightarrow> valid_name (fst entry)"
    and wf_ds: "\<And>entry. entry \<in> set ds \<Longrightarrow> wf_tree (snd entry)"
    by (simp_all add: list_all_iff)
  have nested: "\<exists>rel. path = stem root @ fst entry @ ''/'' @ rel"
    if "entry \<in> set ds" "path \<in> set (?g entry)" for entry path
    using scan_below_stem [OF wf_ds [OF that(1)] that(2)] valid_ds [OF that(1)]
    by (auto simp add: stem_path_join)
  have "inj_on (path_join root) (set (filter is_code_file fs))"
    by (rule inj_onI) (simp add: path_join_stem valid_fs)
  with names(1) have "distinct (map (path_join root) (filter is_code_file fs))"
    by (simp add: distinct_map)
  moreover have "distinct (concat (map ?g ds))"
  proof (rule distinct_concat_keyed [where key = ?key])
    show "distinct (map fst ds)" by (rule names(2))
  next
    fix entry assume "entry \<in> set ds"
    then show "distinct (?g entry)" by (intro "1.IH" wf_ds)
  next
    fix entry path assume entry: "entry \<in> set ds" and "path \<in> set (?g entry)"
    with nested obtain rel where "path = stem root @ fst entry @ ''/'' @ rel"
      by blast
    moreover from valid_ds [OF entry] have "CHR ''/'' \<notin> set (fst entry)"
      by (simp add: valid_name_def)
    ultimately show "?key path = fst entry"
      by (simp add: first_component)
  qed
  moreover have "set (map (path_join root) (filter is_code_file fs)) \<inter> set (concat (map ?g ds)) = {}"
  proof (rule ccontr)
    assume "set (map (path_join root) (filter is_code_file fs)) \<inter> set (concat (map ?g ds)) \<noteq> {}"
    then obtain name entry where name: "name \<in> set fs" and entry: "entry \<in> set ds"
      and "path_join root name \<in> set (?g entry)"
      by auto
    with nested obtain rel where "path_join root name = stem root @ fst entry @ ''/'' @ rel"
      by blast
    with valid_fs [OF name] have "name = fst entry @ ''/'' @ rel"
      by (simp add: path_join_stem)
    with valid_fs [OF name] show False
      by (simp add: valid_name_def)
  qed
  ultimately show ?case
    by (simp add: scan_directory_Dir)
qed

section \<open>The worker threads\<close>

lemma successes_Nil: "successes w [] = []"
  by (simp add: successes_def)

lemma successes_append: "successes w (xs @ ys) = successes w xs @ successes w ys"
  by (simp add: successes_def)

lemma successes_Cons:
  "successes w (p # ps) =
     (case run_review w p of Inl e \<Rightarrow> [] | Inr report \<Rightarrow> [(p, report)]) @ successes w ps"
  by (simp add: successes_def)

lemma review_file_reports:
  "fst (review_file w p (reports, out)) = reports @ successes w [p]"
  by (simp add: review_file_def successes_def split: sum.splits exn.splits)

lemma run_threads_mset:
  "mset (fst (run_threads w sched pending st)) = mset (fst st) + mset (successes w pending)"
proof (induction w sched pending st rule: run_threads.induct)
  case (1 w sched st)
  then show ?case by (simp add: successes_def)
next
  case (2 w p ps st)
  then show ?case
    by (cases st) (simp add: review_file_reports successes_append [of w "[p]" ps, simplified])
next
  case (3 w k sched p ps st)
  define i where "i = k mod length (p # ps)"
  define a where "a = take i (p # ps)"
  define b where "b = drop (Suc i) (p # ps)"
  define x where "x = (p # ps) ! i"
  have "i < length (p # ps)"
    by (simp add: i_def)
  then have "p # ps = a @ x # b"
    unfolding a_def b_def x_def by (rule id_take_nth_drop)
  then have "successes w (p # ps) = successes w a @ successes w [x] @ successes w b"
    by (simp add: successes_def)
  then have split: "mset (successes w (p # ps)) = mset (successes w (a @ b)) + mset (successes w [x])"
    by (simp add: successes_append)
  from "3.IH" [OF i_def]
  have "mset (fst (run_threads w sched (a @ b) (review_file w x st))) =
      mset (fst (review_file w x st)) + mset (successes w (a @ b))"
    by (simp add: a_def b_def x_def)
  moreover have "run_threads w (k # sched) (p # ps) st =
      run_threads w sched (a @ b) (review_file w x st)"
    by (simp add: Let_def i_def a_def b_def x_def)
  ultimately show ?case
    using split by (cases st) (simp add: review_file_reports)
qed

text \<open>Every order in which the workers can finish is the run of some scheduler.\<close>

lemma every_order_is_a_run:
  "mset order = mset pending \<Longrightarrow>
   \<exists>sched. run_threads w sched pending st = foldl (\<lambda>st p. review_file w p st) st order"
proof (induction order arbitrary: pending st)
  case Nil
  then have "run_threads w [] pending st = st"
    by simp
  then show ?case
    by auto
next
  case (Cons x xs)
  from Cons.prems have "x \<in> set pending"
    by (metis list.set_intros(1) mset_eq_setD)
  then obtain i where i: "i < length pending" "pending ! i = x"
    by (auto simp add: in_set_conv_nth)
  then obtain p ps where pending: "pending = p # ps"
    by (cases pending) auto
  define rest where "rest = take i pending @ drop (Suc i) pending"
  from i have "pending = take i pending @ x # drop (Suc i) pending"
    by (metis id_take_nth_drop)
  then have "mset pending = mset rest + {#x#}"
    unfolding rest_def by (metis mset.simps(2) mset_append union_mset_add_mset_right add.right_neutral)
  with Cons.prems have "mset xs = mset rest"
    by simp
  from Cons.IH [OF this] obtain sched
    where "run_threads w sched rest (review_file w x st) =
      foldl (\<lambda>st p. review_file w p st) (review_file w x st) xs"
    by blast
  moreover from i pending have "i mod length (p # ps) = i"
    by simp
  ultimately have "run_threads w (i # sched) pending st =
      foldl (\<lambda>st p. review_file w p st) st (x # xs)"
    using i(2) by (simp add: pending Let_def rest_def)
  then show ?case
    by blast
qed

lemma run_project_review_mset:
  "mset (fst (run_project_review w directory out)) =
     mset (successes w (scan_directory (tree_at w directory) directory))"
  by (simp add: run_project_review_def run_threads_mset)

lemma map_fst_successes:
  "map fst (successes w code_files) = filter (\<lambda>p. \<not> isl (run_review w p)) code_files"
  by (induction code_files) (auto simp add: successes_Nil successes_Cons split: sum.splits)

lemma successes_member:
  "(p, report) \<in> set (successes w code_files) \<longleftrightarrow>
   p \<in> set code_files \<and> run_review w p = Inr report"
  by (induction code_files) (auto simp add: successes_Nil successes_Cons split: sum.splits)

lemma count_list_distinct: "distinct xs \<Longrightarrow> x \<in> set xs \<Longrightarrow> count_list xs x = 1"
  by (induction xs) auto

text \<open>
  C3. For a directory with N discovered files, \<open>run_project_review\<close> returns, whatever
  the order in which the workers finish, a collection with at most N entries and with
  exactly N minus the number of files whose pipeline raised; the path of every entry is
  a discovered path and no path appears twice; a worker whose pipeline returns a report
  contributes the pair of its path and that report exactly once, and a worker whose
  pipeline raised contributes no entry.
\<close>

theorem run_project_review_entries:
  assumes "wf_tree (tree_at w directory)"
  shows "let code_files = scan_directory (tree_at w directory) directory;
             reports = fst (run_project_review w directory out);
             raised = filter (\<lambda>p. isl (run_review w p)) code_files
         in length reports \<le> length code_files
          \<and> length reports = length code_files - length raised
          \<and> set (map fst reports) \<subseteq> set code_files
          \<and> distinct (map fst reports)
          \<and> (\<forall>p report. p \<in> set code_files \<and> run_review w p = Inr report \<longrightarrow>
                count_list reports (p, report) = 1)
          \<and> (\<forall>p. p \<in> set code_files \<and> isl (run_review w p) \<longrightarrow> p \<notin> set (map fst reports))"
proof -
  define code_files where "code_files = scan_directory (tree_at w directory) directory"
  define reports where "reports = fst (run_project_review w directory out)"
  define returned where "returned = filter (\<lambda>p. \<not> isl (run_review w p)) code_files"
  define raised where "raised = filter (\<lambda>p. isl (run_review w p)) code_files"
  have same: "mset reports = mset (successes w code_files)"
    by (simp add: reports_def code_files_def run_project_review_mset)
  then have "mset (map fst reports) = mset (map fst (successes w code_files))"
    by simp
  then have paths: "mset (map fst reports) = mset returned"
    by (simp only: map_fst_successes returned_def)
  from assms have "distinct code_files"
    by (simp add: code_files_def scan_directory_distinct)
  then have "distinct returned"
    by (simp add: returned_def)
  with mset_eq_imp_distinct_iff [OF paths] have distinct_paths: "distinct (map fst reports)"
    by simp
  from paths have set_paths: "set (map fst reports) = set returned"
    by (rule mset_eq_setD)
  from paths have "length (map fst reports) = length returned"
    by (rule mset_eq_length)
  moreover have "length returned + length raised = length code_files"
    unfolding returned_def raised_def
    using sum_length_filter_compl [of "\<lambda>p. isl (run_review w p)" code_files] by simp
  ultimately have count: "length reports = length code_files - length raised"
    by simp
  have once: "count_list reports (p, report) = 1"
    if "p \<in> set code_files" "run_review w p = Inr report" for p report
  proof -
    from that have "(p, report) \<in> set (successes w code_files)"
      by (simp add: successes_member)
    with mset_eq_setD [OF same] have "(p, report) \<in> set reports"
      by simp
    moreover from distinct_paths have "distinct reports"
      by (simp add: distinct_map)
    ultimately show ?thesis
      by (rule count_list_distinct [rotated])
  qed
  have "length reports \<le> length code_files"
    using count by simp
  moreover have "set (map fst reports) \<subseteq> set code_files"
    unfolding set_paths returned_def by auto
  moreover have "\<forall>p. p \<in> set code_files \<and> isl (run_review w p) \<longrightarrow> p \<notin> set (map fst reports)"
    unfolding set_paths returned_def by auto
  ultimately show ?thesis
    using count distinct_paths once
    unfolding Let_def code_files_def [symmetric] reports_def [symmetric] raised_def [symmetric]
    by blast
qed

theorem run_project_review_entries_witness:
  "fst (run_project_review sample_world ''D'' []) =
     [(''D/sub/d.js'', ''report on D/sub/d.js''), (''D/sub/c.go'', ''report on D/sub/c.go'')]
   \<and> length (fst (run_project_review sample_world ''D'' [])) = 3 - 1
   \<and> distinct (map fst (fst (run_project_review sample_world ''D'' [])))
   \<and> count_list (fst (run_project_review sample_world ''D'' []))
        (''D/sub/c.go'', ''report on D/sub/c.go'') = 1
   \<and> ''D/a.py'' \<notin> set (map fst (fst (run_project_review sample_world ''D'' [])))"
proof -
  have wf: "wf_tree (tree_at sample_world ''D'')"
    by code_simp
  have found: "scan_directory (tree_at sample_world ''D'') ''D'' =
      [''D/a.py'', ''D/sub/c.go'', ''D/sub/d.js'']"
    by code_simp
  have raised: "filter (\<lambda>p. isl (run_review sample_world p))
      [''D/a.py'', ''D/sub/c.go'', ''D/sub/d.js''] = [''D/a.py'']"
    by code_simp
  have ok: "run_review sample_world ''D/sub/c.go'' = Inr ''report on D/sub/c.go''"
    by code_simp
  have failed: "isl (run_review sample_world ''D/a.py'')"
    by code_simp
  have run: "fst (run_project_review sample_world ''D'' []) =
     [(''D/sub/d.js'', ''report on D/sub/d.js''), (''D/sub/c.go'', ''report on D/sub/c.go'')]"
    by code_simp
  note inst = run_project_review_entries [OF wf, of "[]", unfolded Let_def found raised]
  from inst have "length (fst (run_project_review sample_world ''D'' [])) = 3 - 1"
    by simp
  moreover from inst have "distinct (map fst (fst (run_project_review sample_world ''D'' [])))"
    by blast
  moreover from inst ok have "count_list (fst (run_project_review sample_world ''D'' []))
        (''D/sub/c.go'', ''report on D/sub/c.go'') = 1"
    by simp
  moreover from inst failed
  have "''D/a.py'' \<notin> set (map fst (fst (run_project_review sample_world ''D'' [])))"
    by simp
  ultimately show ?thesis
    using run by blast
qed

text \<open>
  C6. When the pipeline of one discovered file raises, every other discovered file
  whose pipeline returns a report still has its pair of path and report in the
  collection that \<open>run_project_review\<close> returns, whatever the order in which the workers
  finish.
\<close>

theorem sibling_reports_kept:
  assumes "failing \<in> set (scan_directory (tree_at w directory) directory)"
    and "isl (run_review w failing)"
    and "p \<in> set (scan_directory (tree_at w directory) directory)"
    and "run_review w p = Inr report"
  shows "(p, report) \<in> set (fst (run_project_review w directory out))"
proof -
  from assms(3,4)
  have "(p, report) \<in> set (successes w (scan_directory (tree_at w directory) directory))"
    by (simp add: successes_member)
  then show ?thesis
    using mset_eq_setD [OF run_project_review_mset [of w directory out]] by simp
qed

theorem sibling_reports_kept_witness:
  "(''D/sub/c.go'', ''report on D/sub/c.go'') \<in> set (fst (run_project_review sample_world ''D'' []))
   \<and> (''D/sub/d.js'', ''report on D/sub/d.js'') \<in>
       set (fst (run_project_review (sample_world\<lparr>scheduler := [0, 1]\<rparr>) ''D'' []))"
proof -
  have 1: "''D/a.py'' \<in> set (scan_directory (tree_at sample_world ''D'') ''D'')"
    and 2: "isl (run_review sample_world ''D/a.py'')"
    and 3: "''D/sub/c.go'' \<in> set (scan_directory (tree_at sample_world ''D'') ''D'')"
    and 4: "run_review sample_world ''D/sub/c.go'' = Inr ''report on D/sub/c.go''"
    by code_simp+
  let ?w = "sample_world\<lparr>scheduler := [0, 1]\<rparr>"
  have 5: "''D/a.py'' \<in> set (scan_directory (tree_at ?w ''D'') ''D'')"
    and 6: "isl (run_review ?w ''D/a.py'')"
    and 7: "''D/sub/d.js'' \<in> set (scan_directory (tree_at ?w ''D'') ''D'')"
    and 8: "run_review ?w ''D/sub/d.js'' = Inr ''report on D/sub/d.js''"
    by code_simp+
  from sibling_reports_kept [OF 1 2 3 4] sibling_reports_kept [OF 5 6 7 8]
  show ?thesis
    by blast
qed

text \<open>
  C7. When the path argument does not exist, \<open>main\<close> prints a line \<open>Path not found\<close>
  that holds the path and the process exits with code 1; when a \<open>KeyboardInterrupt\<close>
  is raised during the review (by the pipeline on a single file, or in the main thread
  while it waits for the workers of a directory), the process exits with code 0.
\<close>

theorem main_exit_codes:
  assumes "2 \<le> length argv"
  shows "(\<not> path_exists w (argv ! 1) \<longrightarrow>
           main w argv out = (Inl (SystemExit 1), out @ ['' Path not found: '' @ argv ! 1])
           \<and> exit_code (fst (main w argv out)) = 1)
       \<and> (path_exists w (argv ! 1) \<and> fst (review_path w (argv ! 1) out) = Inl KeyboardInterrupt \<longrightarrow>
           main w argv out =
             (Inl (SystemExit 0),
              snd (review_path w (argv ! 1) out) @ [''\<newline>\<newline>  Review interrupted by user''])
           \<and> exit_code (fst (main w argv out)) = 0)
       \<and> (isfile w (argv ! 1) \<and> run_review w (argv ! 1) = Inl KeyboardInterrupt \<longrightarrow>
           fst (review_path w (argv ! 1) out) = Inl KeyboardInterrupt)
       \<and> (\<not> isfile w (argv ! 1) \<and> isdir w (argv ! 1) \<and> interrupt_join w \<longrightarrow>
           fst (review_path w (argv ! 1) out) = Inl KeyboardInterrupt)"
proof (intro conjI impI)
  assume "\<not> path_exists w (argv ! 1)"
  with assms show "main w argv out = (Inl (SystemExit 1), out @ ['' Path not found: '' @ argv ! 1])"
    by (simp add: main_def)
  then show "exit_code (fst (main w argv out)) = 1"
    by simp
next
  assume "path_exists w (argv ! 1) \<and> fst (review_path w (argv ! 1) out) = Inl KeyboardInterrupt"
  with assms show "main w argv out =
             (Inl (SystemExit 0),
              snd (review_path w (argv ! 1) out) @ [''\<newline>\<newline>  Review interrupted by user''])"
    by (cases "review_path w (argv ! 1) out") (simp add: main_def)
  then show "exit_code (fst (main w argv out)) = 0"
    by simp
next
  assume "isfile w (argv ! 1) \<and> run_review w (argv ! 1) = Inl KeyboardInterrupt"
  then show "fst (review_path w (argv ! 1) out) = Inl KeyboardInterrupt"
    by (simp add: review_path_def)
next
  assume "\<not> isfile w (argv ! 1) \<and> isdir w (argv ! 1) \<and> interrupt_join w"
  then show "fst (review_path w (argv ! 1) out) = Inl KeyboardInterrupt"
    by (simp add: review_path_def)
qed

theorem main_exit_codes_witness:
  "main sample_world [''review.py'', ''missing.py''] [] =
     (Inl (SystemExit 1), ['' Path not found: missing.py''])
   \<and> exit_code (fst (main sample_world [''review.py'', ''missing.py''] [])) = 1
   \<and> run_review sample_world ''a.py'' = Inl KeyboardInterrupt
   \<and> exit_code (fst (main sample_world [''review.py'', ''a.py''] [])) = 0
   \<and> exit_code (fst (main (sample_world\<lparr>interrupt_join := True\<rparr>) [''review.py'', ''D''] [])) = 0"
proof -
  let ?stopped = "sample_world\<lparr>interrupt_join := True\<rparr>"
  have args: "2 \<le> length [''review.py'', ''missing.py'']" "2 \<le> length [''review.py'', ''a.py'']"
    "2 \<le> length [''review.py'', ''D'']"
    by simp_all
  have missing: "\<not> path_exists sample_world ([''review.py'', ''missing.py''] ! 1)"
    by code_simp
  have raised: "run_review sample_world ''a.py'' = Inl KeyboardInterrupt"
    by code_simp
  have in_file: "path_exists sample_world ([''review.py'', ''a.py''] ! 1)"
    "isfile sample_world ([''review.py'', ''a.py''] ! 1) \<and>
     run_review sample_world ([''review.py'', ''a.py''] ! 1) = Inl KeyboardInterrupt"
    by code_simp+
  have in_dir: "path_exists ?stopped ([''review.py'', ''D''] ! 1)"
    "\<not> isfile ?stopped ([''review.py'', ''D''] ! 1) \<and> isdir ?stopped ([''review.py'', ''D''] ! 1) \<and>
     interrupt_join ?stopped"
    by code_simp+
  from main_exit_codes [OF args(1), of sample_world "[]"] missing
  have "main sample_world [''review.py'', ''missing.py''] [] =
     (Inl (SystemExit 1), ['' Path not found: missing.py''])
   \<and> exit_code (fst (main sample_world [''review.py'', ''missing.py''] [])) = 1"
    by simp
  moreover from main_exit_codes [OF args(2), of sample_world "[]"] in_file
  have "exit_code (fst (main sample_world [''review.py'', ''a.py''] [])) = 0"
    by blast
  moreover from main_exit_codes [OF args(3), of ?stopped "[]"] in_dir
  have "exit_code (fst (main ?stopped [''review.py'', ''D''] [])) = 0"
    by blast
  ultimately show ?thesis
    using raised by blast
qed

end
